theory Spec2Isabelle
  imports Complex_Main "HOL-Library.Multiset" "HOL-Library.Product_Lexorder"
begin

section \<open>Gaussian beam propagation with ABCD matrices (abcd.py)\<close>

text \<open>
  The module computes with Python floats and complex numbers. They are modelled by the
  exact reals and complex numbers of HOL: rounding is not represented. What floating
  point does where exact arithmetic has no value is written out:
  \<^item> a Python-level division by zero raises \<open>ZeroDivisionError\<close>;
  \<^item> a numpy division by zero gives an infinity or a not-a-number, which every later
    operation of this module keeps non-finite: a q-parameter inside \<open>qpropagate\<close> is a
    \<open>complex option\<close>, \<open>None\<close> standing for such a non-finite value;
  \<^item> \<open>list.sort\<close> raises \<open>ValueError\<close> when it has to compare a numpy array with
    another matrix object.
\<close>

subsection \<open>Values\<close>

datatype error = ZeroDivisionError | ValueError

text \<open>The wavelength \<open>lam = 0.000860\<close>.\<close>

definition lam :: real where
  "lam = 86 / 100000"

text \<open>
  A 2x2 matrix \<open>[[A, B], [C, D]]\<close> is either a numpy array (what the constructors of
  the module return) or a nested Python list (which \<open>qABCD\<close> accepts as well, through
  \<open>np.array(M)\<close>). The entries are kept in row-major order.
\<close>

datatype abcd = NDArray real real real real | Nested real real real real

fun entries :: "abcd \<Rightarrow> real \<times> real \<times> real \<times> real" where
  "entries (NDArray a b c d) = (a, b, c, d)"
| "entries (Nested a b c d) = (a, b, c, d)"

text \<open>
  In an element list a matrix is a Python object, and \<open>list.sort\<close> sees which object it
  is: two references to one object compare as equal without a call of \<open>==\<close>. A numpy
  array is therefore kept with its address, \<open>ArrayAt i a b c d\<close> being the array object
  at address \<open>i\<close> with the entries \<open>a b c d\<close>; two elements hold the same array object
  exactly when their \<open>ArrayAt\<close> values are equal. Nested lists compare by their entries,
  whichever objects they are, so \<open>ListOf a b c d\<close> keeps the entries only.
\<close>

datatype matrix_obj = ArrayAt nat real real real real | ListOf real real real real

text \<open>The matrix that an object holds, as \<open>qABCD\<close> receives it.\<close>

fun matrix_of :: "matrix_obj \<Rightarrow> abcd" where
  "matrix_of (ArrayAt i a b c d) = NDArray a b c d"
| "matrix_of (ListOf a b c d) = Nested a b c d"

fun is_array :: "matrix_obj \<Rightarrow> bool" where
  "is_array (ArrayAt i a b c d) = True"
| "is_array (ListOf a b c d) = False"

text \<open>An optical element \<open>[position, matrix]\<close>.\<close>

type_synonym element = "real \<times> matrix_obj"

subsection \<open>q-parameter formulas\<close>

text \<open>\<open>w02q(w0) = 1j * pi * w0**2 / lam\<close>.\<close>

definition w02q :: "real \<Rightarrow> complex" where
  "w02q w0 = \<i> * of_real pi * of_real (w0\<^sup>2) / of_real lam"

text \<open>
  \<open>q2w(q) = np.sqrt(-lam / (pi * np.imag(1 / q)))\<close> on a Python complex \<open>q\<close>: both
  divisions are Python divisions and raise on a zero divisor; \<open>np.sqrt\<close> of a negative
  float is not-a-number (\<open>None\<close>).
\<close>

definition q2w :: "complex \<Rightarrow> error + real option" where
  "q2w q =
    (if q = 0 then Inl ZeroDivisionError
     else if pi * Im (1 / q) = 0 then Inl ZeroDivisionError
     else let x = - lam / (pi * Im (1 / q))
          in Inr (if x < 0 then None else Some (sqrt x)))"

text \<open>
  \<open>q2w0(q) = np.sqrt(np.imag(q) * lam / q)\<close> on a Python complex \<open>q\<close>: the quotient is
  complex, and \<open>np.sqrt\<close> of a complex number is the principal square root.
\<close>

definition q2w0 :: "complex \<Rightarrow> error + complex" where
  "q2w0 q =
    (if q = 0 then Inl ZeroDivisionError
     else Inr (csqrt (of_real (Im q * lam) / q)))"

text \<open>
  \<open>qABCD(q, M) = (M[0,0] * q + M[0,1]) / (M[1,0] * q + M[1,1])\<close> after
  \<open>M = np.array(M)\<close>: the entries are numpy scalars, so a zero denominator gives a
  non-finite value and no exception.
\<close>

fun qABCD :: "complex option \<Rightarrow> abcd \<Rightarrow> complex option" where
  "qABCD None M = None"
| "qABCD (Some q) M =
    (case entries M of (a, b, c, d) \<Rightarrow>
      if of_real c * q + of_real d = 0 then None
      else Some ((of_real a * q + of_real b) / (of_real c * q + of_real d)))"

text \<open>\<open>qreverse(q) = -conj(q)\<close>.\<close>

definition qreverse :: "complex \<Rightarrow> complex" where
  "qreverse q = - cnj q"

text \<open>The update \<open>qt += d\<close> of a q-parameter by a real distance.\<close>

fun q_add :: "complex option \<Rightarrow> real \<Rightarrow> complex option" where
  "q_add None d = None"
| "q_add (Some q) d = Some (q + of_real d)"

subsection \<open>ABCD matrices\<close>

text \<open>\<open>Mprop(d) = np.array([[1, float(d)], [0, 1]])\<close>.\<close>

definition Mprop :: "real \<Rightarrow> abcd" where
  "Mprop d = NDArray 1 d 0 1"

text \<open>
  The optional argument \<open>R\<close> of \<open>Minterface\<close> takes any Python value; its default is the
  string \<open>'inf'\<close>.
\<close>

datatype pyarg = PyStr string | PyNum real | PyNone

text \<open>
  \<open>Minterface(n0, n1, R='inf') = np.array([[1, 0], [0, float(n0)/float(n1)]])\<close>: the
  division is a Python float division.
\<close>

definition Minterface :: "real \<Rightarrow> real \<Rightarrow> pyarg \<Rightarrow> error + abcd" where
  "Minterface n0 n1 R =
    (if n1 = 0 then Inl ZeroDivisionError else Inr (NDArray 1 0 0 (n0 / n1)))"

definition Minterface_default :: "real \<Rightarrow> real \<Rightarrow> error + abcd" where
  "Minterface_default n0 n1 = Minterface n0 n1 (PyStr ''inf'')"

text \<open>\<open>Mlens(f) = np.array([[1, 0], [-1/float(f), 1]])\<close>.\<close>

definition Mlens :: "real \<Rightarrow> error + abcd" where
  "Mlens f = (if f = 0 then Inl ZeroDivisionError else Inr (NDArray 1 0 (- 1 / f) 1))"

subsection \<open>Python lists\<close>

text \<open>
  \<open>qpropagate\<close> copies the list it is given and then sorts, reverses and pops the
  copy in place, so list objects are modelled in a store: every address holds a list,
  and \<open>fresh\<close> is the next address that no object uses yet. The elements themselves
  are only read, so they are values.
\<close>

record pystate =
  store :: "nat \<Rightarrow> element list"
  fresh :: nat

text \<open>\<open>xs[:]\<close>: a new list object with the same items.\<close>

definition list_copy :: "nat \<Rightarrow> pystate \<Rightarrow> nat \<times> pystate" where
  "list_copy a s =
    (fresh s, s\<lparr>store := (store s)(fresh s := store s a), fresh := Suc (fresh s)\<rparr>)"

text \<open>
  \<open>xs.sort()\<close> orders the elements \<open>[position, matrix]\<close> as Python orders lists:
  by position, and at equal positions by the matrices. There, two references to one
  object are equal, and two nested lists compare entry by entry in row-major order. Any
  other comparison involves a numpy array and a different object: \<open>==\<close> gives an array of
  truth values, whose truth value is ambiguous, and the comparison raises
  \<open>ValueError\<close>. A sort has to compare the groups of elements that share a position
  with each other, so it raises exactly when two elements of one position hold
  different matrix objects of which at least one is an array. Otherwise the result is
  the sorted permutation.
\<close>

fun el_key :: "element \<Rightarrow> real \<times> real \<times> real \<times> real \<times> real" where
  "el_key (p, M) = (p, entries (matrix_of M))"

text \<open>The comparison of the elements \<open>x\<close> and \<open>y\<close> raises.\<close>

definition raising :: "element \<Rightarrow> element \<Rightarrow> bool" where
  "raising x y \<longleftrightarrow>
    fst x = fst y \<and> snd x \<noteq> snd y \<and> (is_array (snd x) \<or> is_array (snd y))"

definition ambiguous :: "element list \<Rightarrow> bool" where
  "ambiguous xs = list_ex (\<lambda>x. list_ex (\<lambda>y. raising x y) xs) xs"

definition py_sorted :: "element list \<Rightarrow> error + element list" where
  "py_sorted xs = (if ambiguous xs then Inl ValueError else Inr (sort_key el_key xs))"

definition list_sort :: "nat \<Rightarrow> pystate \<Rightarrow> error + pystate" where
  "list_sort c s =
    (case py_sorted (store s c) of
       Inl e \<Rightarrow> Inl e
     | Inr ys \<Rightarrow> Inr (s\<lparr>store := (store s)(c := ys)\<rparr>))"

text \<open>\<open>xs.reverse()\<close> and \<open>xs.pop()\<close> (on a non-empty list).\<close>

definition list_reverse :: "nat \<Rightarrow> pystate \<Rightarrow> pystate" where
  "list_reverse c s = s\<lparr>store := (store s)(c := rev (store s c))\<rparr>"

definition list_pop :: "nat \<Rightarrow> pystate \<Rightarrow> element \<times> pystate" where
  "list_pop c s = (last (store s c), s\<lparr>store := (store s)(c := butlast (store s c))\<rparr>)"

subsection \<open>The propagation engine\<close>

text \<open>
  The loop of the branch \<open>z >= zini\<close>, on the local variables \<open>zt\<close>, \<open>qt\<close> and the
  list object \<open>c\<close>:
  \<^verbatim>\<open>while elements: el = elements.pop(); if zt <= el[0] <= z: ...\<close>
\<close>

function fwd_loop :: "real \<Rightarrow> nat \<Rightarrow> real \<times> complex option \<Rightarrow> pystate \<Rightarrow> (real \<times> complex option) \<times> pystate" where
  "fwd_loop z c (zt, qt) s =
    (if store s c = [] then ((zt, qt), s)
     else
       let (el, s') = list_pop c s in
       if zt \<le> fst el \<and> fst el \<le> z
       then fwd_loop z c (fst el, qABCD (q_add qt (fst el - zt)) (matrix_of (snd el))) s'
       else fwd_loop z c (zt, qt) s')"
  by pat_completeness auto
termination
  by (relation "measure (\<lambda>(z, c, st, s). length (store s c))") (auto simp: list_pop_def)

text \<open>The loop of the branch \<open>z < zini\<close>.\<close>

function bwd_loop :: "real \<Rightarrow> nat \<Rightarrow> real \<times> complex option \<Rightarrow> pystate \<Rightarrow> (real \<times> complex option) \<times> pystate" where
  "bwd_loop z c (zt, qt) s =
    (if store s c = [] then ((zt, qt), s)
     else
       let (el, s') = list_pop c s in
       if z \<le> fst el \<and> fst el \<le> zt
       then bwd_loop z c (fst el, qABCD (q_add qt (zt - fst el)) (matrix_of (snd el))) s'
       else bwd_loop z c (zt, qt) s')"
  by pat_completeness auto
termination
  by (relation "measure (\<lambda>(z, c, st, s). length (store s c))") (auto simp: list_pop_def)

text \<open>
  \<open>qpropagate(zini, qini, elements, z)\<close>, where \<open>a\<close> is the address of the caller's
  list. The result is the returned value (or the exception raised) and the final store.
  When the sort raises, the private copy is left as it was: nothing refers to it any more.
\<close>

definition qpropagate :: "real \<Rightarrow> complex \<Rightarrow> nat \<Rightarrow> real \<Rightarrow> pystate \<Rightarrow> (error + complex option) \<times> pystate" where
  "qpropagate zini qini a z s0 =
    (let (c, s1) = list_copy a s0 in
     case list_sort c s1 of
       Inl e \<Rightarrow> (Inl e, s1)
     | Inr s2 \<Rightarrow>
         if z \<ge> zini then
           let s3 = list_reverse c s2;
               ((zt, qt), s4) = fwd_loop z c (zini, Some qini) s3
           in (Inr (q_add qt (z - zt)), s4)
         else
           let ((zt, qt), s4) = bwd_loop z c (zini, Some (qreverse qini)) s2
           in (Inr (map_option qreverse (q_add qt (zt - z))), s4))"

subsection \<open>The traversal in the words of the specification\<close>

text \<open>
  The specification describes the traversal as a repeated selection: among the remaining
  elements whose position lies between the walked location and the target, take the one
  of highest position, cross the gap to it, apply its matrix and move the walked location
  there. \<open>select_walk True\<close> is that description for the branch \<open>z >= zini\<close>;
  \<open>select_walk False\<close> takes the element of lowest position instead.
\<close>

function select_walk :: "bool \<Rightarrow> real \<Rightarrow> real \<times> complex option \<Rightarrow> element list \<Rightarrow> real \<times> complex option" where
  "select_walk highest z (zt, qt) remaining =
    (let cands = filter (\<lambda>e. zt \<le> fst e \<and> fst e \<le> z) remaining in
     if cands = [] then (zt, qt)
     else
       let el = (if highest then last (sort_key el_key cands) else hd (sort_key el_key cands))
       in select_walk highest z (fst el, qABCD (q_add qt (fst el - zt)) (matrix_of (snd el)))
            (remove1 el remaining))"
  by pat_completeness auto
termination
proof (relation "measure (\<lambda>(h, z, st, remaining). length remaining)", goal_cases)
  case 1 show ?case by simp
next
  case (2 highest z zt qt remaining cands el)
  let ?ys = "sort_key el_key cands"
  have ne: "?ys \<noteq> []" using 2 by (metis length_sort length_0_conv)
  have "el = last ?ys \<or> el = hd ?ys" using 2 by (simp split: if_splits)
  then have "el \<in> set ?ys" using ne last_in_set [of ?ys] hd_in_set [of ?ys] by blast
  then have "el \<in> set cands" by simp
  then have "el \<in> set remaining" using 2 by simp
  then have "remaining \<noteq> []" and "length (remove1 el remaining) = length remaining - 1"
    by (auto simp: length_remove1)
  then show ?case by (cases remaining) simp_all
qed

definition highest_first :: "real \<Rightarrow> complex \<Rightarrow> element list \<Rightarrow> real \<Rightarrow> complex option" where
  "highest_first zini qini xs z =
    (let (zt, qt) = select_walk True z (zini, Some qini) xs in q_add qt (z - zt))"

definition lowest_first :: "real \<Rightarrow> complex \<Rightarrow> element list \<Rightarrow> real \<Rightarrow> complex option" where
  "lowest_first zini qini xs z =
    (let (zt, qt) = select_walk False z (zini, Some qini) xs in q_add qt (z - zt))"

subsection \<open>The loops as functions of the popped sequence\<close>

text \<open>
  One step of a loop on an element that passes the test, and the loops as recursions
  over the elements in the order in which they are popped.
\<close>

fun fwd_step :: "real \<times> complex option \<Rightarrow> element \<Rightarrow> real \<times> complex option" where
  "fwd_step (zt, qt) el = (fst el, qABCD (q_add qt (fst el - zt)) (matrix_of (snd el)))"

fun bwd_step :: "real \<times> complex option \<Rightarrow> element \<Rightarrow> real \<times> complex option" where
  "bwd_step (zt, qt) el = (fst el, qABCD (q_add qt (zt - fst el)) (matrix_of (snd el)))"

fun fwd_walk :: "real \<Rightarrow> real \<times> complex option \<Rightarrow> element list \<Rightarrow> real \<times> complex option" where
  "fwd_walk z st [] = st"
| "fwd_walk z st (el # els) =
    (if fst st \<le> fst el \<and> fst el \<le> z then fwd_walk z (fwd_step st el) els
     else fwd_walk z st els)"

fun bwd_walk :: "real \<Rightarrow> real \<times> complex option \<Rightarrow> element list \<Rightarrow> real \<times> complex option" where
  "bwd_walk z st [] = st"
| "bwd_walk z st (el # els) =
    (if z \<le> fst el \<and> fst el \<le> fst st then bwd_walk z (bwd_step st el) els
     else bwd_walk z st els)"

text \<open>
  The elements on which the test of a loop succeeds, in the order of their application:
  the test depends on the walked location only.
\<close>

fun fwd_trace :: "real \<Rightarrow> real \<Rightarrow> element list \<Rightarrow> element list" where
  "fwd_trace z zt [] = []"
| "fwd_trace z zt (el # els) =
    (if zt \<le> fst el \<and> fst el \<le> z then el # fwd_trace z (fst el) els
     else fwd_trace z zt els)"

fun bwd_trace :: "real \<Rightarrow> real \<Rightarrow> element list \<Rightarrow> element list" where
  "bwd_trace z zt [] = []"
| "bwd_trace z zt (el # els) =
    (if z \<le> fst el \<and> fst el \<le> zt then el # bwd_trace z (fst el) els
     else bwd_trace z zt els)"

text \<open>
  The elements that a call applies. When \<open>z >= zini\<close> the sorted copy is reversed and
  then popped from its end, so the loop meets the elements in ascending order; when
  \<open>z < zini\<close> the sorted copy is popped from its end as it is, in descending order.
\<close>

definition traversal :: "real \<Rightarrow> real \<Rightarrow> element list \<Rightarrow> element list" where
  "traversal zini z xs =
    (if z \<ge> zini then fwd_trace z zini (sort_key el_key xs)
     else bwd_trace z zini (rev (sort_key el_key xs)))"

text \<open>The value a call computes from the elements it applies.\<close>

definition compose :: "real \<Rightarrow> complex \<Rightarrow> real \<Rightarrow> element list \<Rightarrow> complex option" where
  "compose zini qini z tr =
    (if z \<ge> zini then
       let (zt, qt) = foldl fwd_step (zini, Some qini) tr in q_add qt (z - zt)
     else
       let (zt, qt) = foldl bwd_step (zini, Some (qreverse qini)) tr
       in map_option qreverse (q_add qt (zt - z)))"

text \<open>A state in which the list object \<open>c\<close> has been popped until it is empty.\<close>

definition exhausted :: "nat \<Rightarrow> pystate \<Rightarrow> pystate" where
  "exhausted c s = s\<lparr>store := (store s)(c := [])\<rparr>"

section \<open>Conversions at a waist\<close>

lemma lam_pos: "0 < lam" by (simp add: lam_def)

lemma w02q_parts: "Re (w02q w0) = 0 \<and> Im (w02q w0) = pi * w0\<^sup>2 / lam"
  by (simp add: w02q_def lam_def)

lemma w02q_eq: "w02q w0 = Complex 0 (pi * w0\<^sup>2 / lam)"
  by (simp add: complex_eq_iff w02q_parts)

lemma w02q_nonzero: "w0 \<noteq> 0 \<Longrightarrow> w02q w0 \<noteq> 0"
  by (simp add: w02q_eq lam_def complex_eq_iff)

lemma q2w_w02q: 
  assumes "0 < w0" shows "q2w (w02q w0) = Inr (Some w0)"
proof -
  have nz: "w02q w0 \<noteq> 0" using assms by (simp add: w02q_nonzero)
  have im: "Im (1 / w02q w0) = - lam / (pi * w0\<^sup>2)"
    using assms by (simp add: w02q_eq Im_divide lam_def power2_eq_square field_simps)
  have x: "- lam / (pi * Im (1 / w02q w0)) = w0\<^sup>2"
    using assms by (simp add: im lam_def field_simps)
  have nz2: "pi * Im (1 / w02q w0) \<noteq> 0" using assms by (simp add: im lam_def)
  show ?thesis using assms nz nz2 unfolding q2w_def x by (simp add: Let_def)
qed

lemma q2w0_w02q:
  assumes "w0 \<noteq> 0" shows "q2w0 (w02q w0) = Inr (Complex (sqrt (lam / 2)) (- sqrt (lam / 2)))"
proof -
  have nz: "w02q w0 \<noteq> 0" using assms by (simp add: w02q_nonzero)
  have quot: "of_real (Im (w02q w0) * lam) / w02q w0 = Complex 0 (- lam)"
    using assms by (simp add: w02q_eq complex_eq_iff Re_divide Im_divide lam_def power2_eq_square field_simps)
  have "csqrt (Complex 0 (- lam)) = Complex (sqrt (lam / 2)) (- sqrt (lam / 2))"
    by (simp add: complex_eq_iff cmod_def lam_def)
  then show ?thesis using nz unfolding q2w0_def quot by simp
qed

text \<open>
  C1: at a waist of size \<open>w0 > 0\<close> the spot size is recovered, \<open>q2w (w02q w0) = w0\<close>
  (lemma \<open>q2w_w02q\<close>), and the waist size should be recovered by \<open>q2w0\<close> as well. The
  code of \<open>q2w0\<close> divides by \<open>q\<close> where the waist formula divides by \<open>pi\<close>: at
  \<open>w0 = 1\<close> it returns the complex number \<open>sqrt (lam / 2) * (1 - \<i>)\<close>, which is not \<open>1\<close>.
\<close>

theorem q2w0_at_waist:
  "q2w0 (w02q 1) = Inr (Complex (sqrt (lam / 2)) (- sqrt (lam / 2))) \<and> q2w0 (w02q 1) \<noteq> Inr (of_real 1)"
proof -
  have e: "q2w0 (w02q 1) = Inr (Complex (sqrt (lam / 2)) (- sqrt (lam / 2)))"
    by (rule q2w0_w02q) simp
  have "Complex (sqrt (lam / 2)) (- sqrt (lam / 2)) \<noteq> of_real 1"
    by (simp add: complex_eq_iff lam_def)
  then show ?thesis using e by simp
qed

section \<open>Matrices\<close>

text \<open>
  C3: for \<open>n1 \<noteq> 0\<close> and every value of the optional argument \<open>R\<close>, the default
  included, \<open>Minterface n0 n1 R\<close> is the matrix \<open>[[1, 0], [0, n0 / n1]]\<close>; the result does
  not depend on \<open>R\<close>.
\<close>

theorem Minterface_flat:
  "n1 \<noteq> 0 \<Longrightarrow> Minterface n0 n1 R = Inr (NDArray 1 0 0 (n0 / n1)) \<and>
     Minterface_default n0 n1 = Inr (NDArray 1 0 0 (n0 / n1)) \<and> Minterface n0 n1 R = Minterface n0 n1 R'"
  by (simp add: Minterface_def Minterface_default_def)

theorem Minterface_flat_witness:
  "(3::real) \<noteq> 0 \<and> Minterface 1 3 (PyNum 50) = Inr (NDArray 1 0 0 (1 / 3)) \<and>
     Minterface_default 1 3 = Inr (NDArray 1 0 0 (1 / 3)) \<and> Minterface 1 3 (PyNum 50) = Minterface 1 3 PyNone"
proof -
  have h: "(3::real) \<noteq> 0" by simp
  show ?thesis using h Minterface_flat [OF h, of 1 "PyNum 50" PyNone] by blast
qed

text \<open>
  C8: the ABCD transform of the free-space matrix adds the distance,
  \<open>qABCD q (Mprop d) = q + d\<close>, so the update \<open>qt += d\<close> of \<open>qpropagate\<close> is the
  transform by \<open>Mprop d\<close>, for a non-finite \<open>qt\<close> as well.
\<close>

theorem qABCD_Mprop:
  "qABCD (Some q) (Mprop d) = Some (q + of_real d) \<and> qABCD qt (Mprop d) = q_add qt d"
  by (cases qt) (simp_all add: Mprop_def)

section \<open>Direction reversal\<close>

text \<open>
  C9: for every complex q-parameter \<open>q\<close>, reversing the direction twice gives \<open>q\<close> back:
  \<open>qreverse (qreverse q) = q\<close>.
\<close>

theorem qreverse_involution: "qreverse (qreverse q) = q"
  by (simp add: qreverse_def)

text \<open>
  C10: \<open>qreverse\<close> keeps the imaginary part and negates the real part, so a q-parameter
  with positive imaginary part stays one.
\<close>

theorem qreverse_parts:
  "Im (qreverse q) = Im q \<and> Re (qreverse q) = - Re q \<and> (0 < Im q \<longrightarrow> 0 < Im (qreverse q))"
  by (simp add: qreverse_def)

theorem qreverse_parts_witness:
  "Im (qreverse (Complex 3 2)) = 2 \<and> Re (qreverse (Complex 3 2)) = - 3 \<and>
   0 < Im (Complex 3 2) \<and> 0 < Im (qreverse (Complex 3 2))"
  using qreverse_parts [of "Complex 3 2"] by simp

section \<open>The propagation engine\<close>

subsection \<open>The loops and the value of a call\<close>

declare fwd_loop.simps [simp del] bwd_loop.simps [simp del] select_walk.simps [simp del]

lemma exhausted_idem: "store s c = [] \<Longrightarrow> exhausted c s = s"
  unfolding exhausted_def by (metis fun_upd_triv pystate.surjective pystate.update_convs(1))

lemma exhausted_pop: "exhausted c (s\<lparr>store := (store s)(c := xs)\<rparr>) = exhausted c s"
  by (simp add: exhausted_def)

lemma fwd_loop_walk:
  "store s c = xs \<Longrightarrow> fwd_loop z c st s = (fwd_walk z st (rev xs), exhausted c s)"
proof (induction xs arbitrary: s st rule: rev_induct)
  case Nil
  obtain zt qt where st: "st = (zt, qt)" by (cases st)
  have "fwd_loop z c st s = (st, s)" using Nil by (simp add: st fwd_loop.simps [of z c zt qt s])
  then show ?case using Nil by (simp add: exhausted_idem)
next
  case (snoc x xs)
  obtain zt qt where st: "st = (zt, qt)" by (cases st)
  define s' where "s' = s\<lparr>store := (store s)(c := xs)\<rparr>"
  have pop: "list_pop c s = (x, s')" using snoc.prems by (simp add: list_pop_def s'_def)
  have s': "store s' c = xs" by (simp add: s'_def)
  have clear: "exhausted c s' = exhausted c s" unfolding s'_def by (rule exhausted_pop)
  have ne: "store s c \<noteq> []" using snoc.prems by simp
  show ?case
  proof (cases "zt \<le> fst x \<and> fst x \<le> z")
    case True
    have "fwd_loop z c st s = fwd_loop z c (fwd_step st x) s'"
      using True ne by (simp add: st fwd_loop.simps [of z c zt qt s] pop)
    then show ?thesis using True snoc.IH [OF s'] by (simp add: st clear)
  next
    case False
    have "fwd_loop z c st s = fwd_loop z c st s'"
      using ne by (simp add: st fwd_loop.simps [of z c zt qt s] pop False)
    then show ?thesis using snoc.IH [OF s'] by (simp add: st clear False)
  qed
qed

lemma bwd_loop_walk:
  "store s c = xs \<Longrightarrow> bwd_loop z c st s = (bwd_walk z st (rev xs), exhausted c s)"
proof (induction xs arbitrary: s st rule: rev_induct)
  case Nil
  obtain zt qt where st: "st = (zt, qt)" by (cases st)
  have "bwd_loop z c st s = (st, s)" using Nil by (simp add: st bwd_loop.simps [of z c zt qt s])
  then show ?case using Nil by (simp add: exhausted_idem)
next
  case (snoc x xs)
  obtain zt qt where st: "st = (zt, qt)" by (cases st)
  define s' where "s' = s\<lparr>store := (store s)(c := xs)\<rparr>"
  have pop: "list_pop c s = (x, s')" using snoc.prems by (simp add: list_pop_def s'_def)
  have s': "store s' c = xs" by (simp add: s'_def)
  have clear: "exhausted c s' = exhausted c s" unfolding s'_def by (rule exhausted_pop)
  have ne: "store s c \<noteq> []" using snoc.prems by simp
  show ?case
  proof (cases "z \<le> fst x \<and> fst x \<le> zt")
    case True
    have "bwd_loop z c st s = bwd_loop z c (bwd_step st x) s'"
      using True ne by (simp add: st bwd_loop.simps [of z c zt qt s] pop)
    then show ?thesis using True snoc.IH [OF s'] by (simp add: st clear)
  next
    case False
    have "bwd_loop z c st s = bwd_loop z c st s'"
      using ne by (simp add: st bwd_loop.simps [of z c zt qt s] pop False)
    then show ?thesis using snoc.IH [OF s'] by (simp add: st clear False)
  qed
qed

lemma fwd_walk_trace: "fwd_walk z st xs = foldl fwd_step st (fwd_trace z (fst st) xs)"
  by (induction xs arbitrary: st) (auto simp: split_beta)

lemma bwd_walk_trace: "bwd_walk z st xs = foldl bwd_step st (bwd_trace z (fst st) xs)"
  by (induction xs arbitrary: st) (auto simp: split_beta)

lemma fwd_trace_sorted:
  "sorted (map fst xs) \<Longrightarrow> fwd_trace z zt xs = filter (\<lambda>e. zt \<le> fst e \<and> fst e \<le> z) xs"
proof (induction xs arbitrary: zt)
  case Nil show ?case by simp
next
  case (Cons el els)
  have later: "\<forall>e \<in> set els. fst el \<le> fst e" using Cons.prems by auto
  have srt: "sorted (map fst els)" using Cons.prems by simp
  show ?case
  proof (cases "zt \<le> fst el \<and> fst el \<le> z")
    case True
    have "filter (\<lambda>e. fst el \<le> fst e \<and> fst e \<le> z) els = filter (\<lambda>e. zt \<le> fst e \<and> fst e \<le> z) els"
      using later True by (intro filter_cong) auto
    then show ?thesis using True Cons.IH [OF srt, of "fst el"] by simp
  next
    case False
    show ?thesis using Cons.IH [OF srt, of zt] by (simp add: False)
  qed
qed

lemma bwd_trace_sorted:
  "sorted (rev (map fst xs)) \<Longrightarrow> bwd_trace z zt xs = filter (\<lambda>e. z \<le> fst e \<and> fst e \<le> zt) xs"
proof (induction xs arbitrary: zt)
  case Nil show ?case by simp
next
  case (Cons el els)
  have later: "\<forall>e \<in> set els. fst e \<le> fst el" using Cons.prems by (auto simp: sorted_append)
  have srt: "sorted (rev (map fst els))" using Cons.prems by (simp add: sorted_append)
  show ?case
  proof (cases "z \<le> fst el \<and> fst el \<le> zt")
    case True
    have "filter (\<lambda>e. z \<le> fst e \<and> fst e \<le> fst el) els = filter (\<lambda>e. z \<le> fst e \<and> fst e \<le> zt) els"
      using later True by (intro filter_cong) auto
    then show ?thesis using True Cons.IH [OF srt, of "fst el"] by simp
  next
    case False
    show ?thesis using Cons.IH [OF srt, of zt] by (simp add: False)
  qed
qed

lemma el_key_mono: "el_key x \<le> el_key y \<Longrightarrow> fst x \<le> fst y"
  by (cases x; cases y) (auto simp: less_eq_prod_def)

lemma sorted_key_fst: "sorted (map el_key xs) \<Longrightarrow> sorted (map fst xs)"
  by (induction xs) (auto simp: el_key_mono)

lemma sorted_fst_sort: "sorted (map fst (sort_key el_key xs))"
  by (rule sorted_key_fst) simp


lemma exhausted_reverse: "exhausted c (list_reverse c s) = exhausted c s"
  unfolding list_reverse_def by (rule exhausted_pop)

lemma qpropagate_eq:
  "qpropagate zini qini a z s =
    (if ambiguous (store s a) then (Inl ValueError, snd (list_copy a s))
     else (Inr (compose zini qini z (traversal zini z (store s a))),
           exhausted (fresh s) (snd (list_copy a s))))"
proof -
  define c where "c = fresh s"
  define s1 where "s1 = snd (list_copy a s)"
  have copy: "list_copy a s = (c, s1)" by (simp add: list_copy_def s1_def c_def)
  have s1c: "store s1 c = store s a" by (simp add: s1_def c_def list_copy_def)
  show ?thesis
  proof (cases "ambiguous (store s a)")
    case True
    then have "list_sort c s1 = Inl ValueError" by (simp add: list_sort_def py_sorted_def s1c)
    then show ?thesis using True by (simp add: qpropagate_def copy s1_def [symmetric])
  next
    case False
    define ys where "ys = sort_key el_key (store s a)"
    define s2 where "s2 = s1\<lparr>store := (store s1)(c := ys)\<rparr>"
    have srt: "list_sort c s1 = Inr s2"
      using False by (simp add: list_sort_def py_sorted_def s1c s2_def ys_def)
    have s2c: "store s2 c = ys" by (simp add: s2_def)
    have ex2: "exhausted c s2 = exhausted c s1" unfolding s2_def by (rule exhausted_pop)
    show ?thesis
    proof (cases "zini \<le> z")
      case True
      define s3 where "s3 = list_reverse c s2"
      have s3c: "store s3 c = rev ys" by (simp add: s3_def list_reverse_def s2c)
      have ex3: "exhausted c s3 = exhausted c s1" unfolding s3_def exhausted_reverse ex2 ..
      have loop: "fwd_loop z c (zini, Some qini) s3 =
          (foldl fwd_step (zini, Some qini) (fwd_trace z zini ys), exhausted c s1)"
        using fwd_loop_walk [OF s3c, of z "(zini, Some qini)"] by (simp add: fwd_walk_trace ex3)
      have "qpropagate zini qini a z s =
          (let ((zt, qt), s4) = fwd_loop z c (zini, Some qini) s3 in (Inr (q_add qt (z - zt)), s4))"
        using True by (simp add: qpropagate_def copy srt s3_def)
      then have "qpropagate zini qini a z s =
          (Inr (compose zini qini z (fwd_trace z zini ys)), exhausted c s1)"
        unfolding loop using True by (simp add: compose_def split_beta)
      then show ?thesis using True False
        by (simp add: traversal_def ys_def c_def s1_def)
    next
      case False2: False
      have loop: "bwd_loop z c (zini, Some (qreverse qini)) s2 =
          (foldl bwd_step (zini, Some (qreverse qini)) (bwd_trace z zini (rev ys)), exhausted c s1)"
        using bwd_loop_walk [OF s2c, of z "(zini, Some (qreverse qini))"]
        by (simp add: bwd_walk_trace ex2)
      have "qpropagate zini qini a z s =
          (let ((zt, qt), s4) = bwd_loop z c (zini, Some (qreverse qini)) s2
           in (Inr (map_option qreverse (q_add qt (zt - z))), s4))"
        using False2 by (simp add: qpropagate_def copy srt)
      then have "qpropagate zini qini a z s =
          (Inr (compose zini qini z (bwd_trace z zini (rev ys))), exhausted c s1)"
        unfolding loop using False2 by (simp add: compose_def split_beta)
      then show ?thesis using False2 False
        by (simp add: traversal_def ys_def c_def s1_def)
    qed
  qed
qed

lemma qpropagate_value:
  "fst (qpropagate zini qini a z s) =
    (if ambiguous (store s a) then Inl ValueError
     else Inr (compose zini qini z (traversal zini z (store s a))))"
  by (simp add: qpropagate_eq)

lemma qpropagate_returns_iff:
  "(\<exists>v. fst (qpropagate zini qini a z s) = Inr v) \<longleftrightarrow> \<not> ambiguous (store s a)"
  by (simp add: qpropagate_value)

lemma qpropagate_store:
  "b \<noteq> fresh s \<Longrightarrow> store (snd (qpropagate zini qini a z s)) b = store s b"
  by (simp add: qpropagate_eq exhausted_def list_copy_def)

lemma traversal_filter:
  "traversal zini z xs =
    (if z \<ge> zini then filter (\<lambda>e. zini \<le> fst e \<and> fst e \<le> z) (sort_key el_key xs)
     else filter (\<lambda>e. z \<le> fst e \<and> fst e \<le> zini) (rev (sort_key el_key xs)))"
  by (simp add: traversal_def fwd_trace_sorted bwd_trace_sorted sorted_fst_sort rev_map [symmetric])

subsection \<open>Free propagation\<close>

text \<open>
  C4: with an empty element list, \<open>qpropagate\<close> returns \<open>qini + (z - zini)\<close>, in the
  branch \<open>z >= zini\<close> and in the branch \<open>z < zini\<close> alike.
\<close>

theorem qpropagate_empty:
  "store s a = [] \<Longrightarrow> fst (qpropagate zini qini a z s) = Inr (Some (qini + of_real (z - zini)))"
proof -
  assume e: "store s a = []"
  have na: "\<not> ambiguous []" by (simp add: ambiguous_def)
  have tr: "traversal zini z [] = []" by (simp add: traversal_def)
  have "compose zini qini z [] = Some (qini + of_real (z - zini))"
    by (simp add: compose_def qreverse_def complex_eq_iff)
  then show ?thesis by (simp add: qpropagate_value e na tr)
qed

theorem qpropagate_empty_witness:
  "store \<lparr>store = (\<lambda>_. []), fresh = 1\<rparr> 0 = [] \<and>
   fst (qpropagate 5 (Complex 2 3) 0 1 \<lparr>store = (\<lambda>_. []), fresh = 1\<rparr>) = Inr (Some (Complex (- 2) 3)) \<and>
   fst (qpropagate 1 (Complex 2 3) 0 5 \<lparr>store = (\<lambda>_. []), fresh = 1\<rparr>) = Inr (Some (Complex 6 3))"
proof -
  let ?s = "\<lparr>store = (\<lambda>_. []), fresh = 1\<rparr>"
  have h: "store ?s 0 = []" by simp
  show ?thesis
    using h qpropagate_empty [OF h, of 5 "Complex 2 3" 1] qpropagate_empty [OF h, of 1 "Complex 2 3" 5]
    by (simp add: complex_eq_iff)
qed

subsection \<open>The caller's list\<close>

text \<open>
  C7: a call leaves the caller's list as it was, with the same elements in the same
  order: the call sorts and pops a copy. The address \<open>a\<close> of the caller's list is one
  that is in use, \<open>a < fresh s\<close>.
\<close>

theorem qpropagate_keeps_caller_list:
  "a < fresh s \<Longrightarrow> store (snd (qpropagate zini qini a z s)) a = store s a"
  by (simp add: qpropagate_store)

theorem qpropagate_keeps_caller_list_witness:
  "(0::nat) < fresh \<lparr>store = (\<lambda>_. [])(0 := [(2, ArrayAt 6 1 0 0 2), (1, ArrayAt 5 1 0 (- 1) 1)]), fresh = 1\<rparr> \<and>
   store (snd (qpropagate 0 \<i> 0 3
      \<lparr>store = (\<lambda>_. [])(0 := [(2, ArrayAt 6 1 0 0 2), (1, ArrayAt 5 1 0 (- 1) 1)]), fresh = 1\<rparr>)) 0
     = [(2, ArrayAt 6 1 0 0 2), (1, ArrayAt 5 1 0 (- 1) 1)]"
proof -
  let ?s = "\<lparr>store = (\<lambda>_. [])(0 := [(2, ArrayAt 6 1 0 0 2), (1, ArrayAt 5 1 0 (- 1) 1)]), fresh = 1\<rparr>"
  have h: "0 < fresh ?s" by simp
  show ?thesis using h qpropagate_keeps_caller_list [OF h, of 0 \<i> 3] by simp
qed

subsection \<open>The order of the input\<close>

lemma ambiguous_iff:
  "ambiguous xs \<longleftrightarrow> (\<exists>x \<in> set xs. \<exists>y \<in> set xs. raising x y)"
  by (simp add: ambiguous_def list_ex_iff)


lemma el_key_inj: "\<not> ambiguous xs \<Longrightarrow> inj_on el_key (set xs)"
proof (rule inj_onI)
  fix x y assume na: "\<not> ambiguous xs" and x: "x \<in> set xs" and y: "y \<in> set xs"
    and k: "el_key x = el_key y"
  obtain p M where xe: "x = (p, M)" by (cases x)
  obtain p' M' where ye: "y = (p', M')" by (cases y)
  have pp: "p' = p" and ee: "entries (matrix_of M) = entries (matrix_of M')"
    using k by (simp_all add: xe ye)
  have "\<not> raising x y" using na x y by (auto simp: ambiguous_iff)
  then have "M = M' \<or> (\<not> is_array M \<and> \<not> is_array M')"
    by (auto simp: raising_def xe ye pp)
  then have "M = M'" using ee by (cases M; cases M') auto
  then show "x = y" by (simp add: xe ye pp)
qed




subsection \<open>Elements at the ends of the interval\<close>

lemma tied_arrays_raise: "ambiguous [(0, ArrayAt 5 1 0 (- 1) 1), (0, ArrayAt 6 1 0 0 2)]"
  by (simp add: ambiguous_def raising_def)

text \<open>
  C5, as stated: in every call, an element at position \<open>zini\<close> and an element at position
  \<open>z\<close> are applied. Not in a call that raises: with a lens and an interface, two array
  objects, both at \<open>zini = 0\<close>, the sort compares the two arrays and raises
  \<open>ValueError\<close>, so that no element is applied and no value is returned.
\<close>

theorem boundary_counterexample:
  "(0, ArrayAt 5 1 0 (- 1) 1) \<in> set [(0, ArrayAt 5 1 0 (- 1) 1), (0, ArrayAt 6 1 0 0 2)] \<and>
   fst (0::real, ArrayAt 5 1 0 (- 1) 1) = 0 \<and>
   fst (qpropagate 0 \<i> 0 3
      \<lparr>store = (\<lambda>_. [])(0 := [(0, ArrayAt 5 1 0 (- 1) 1), (0, ArrayAt 6 1 0 0 2)]), fresh = 1\<rparr>)
     = Inl ValueError \<and>
   fst (qpropagate 0 \<i> 0 3
      \<lparr>store = (\<lambda>_. [])(0 := [(0, ArrayAt 5 1 0 (- 1) 1), (0, ArrayAt 6 1 0 0 2)]), fresh = 1\<rparr>)
     \<noteq> Inr (compose 0 \<i> 3 (traversal 0 3 [(0, ArrayAt 5 1 0 (- 1) 1), (0, ArrayAt 6 1 0 0 2)]))"
  using tied_arrays_raise by (simp add: qpropagate_value)

text \<open>
  C5, amended: in every call that returns a value (its sort does not raise), an element
  at position \<open>zini\<close> and an element at position \<open>z\<close> are among the elements that the loop
  applies, whichever branch runs, and the returned value is the composition over the
  applied elements.
\<close>

theorem qpropagate_boundary_inclusive:
  assumes "fst (qpropagate zini qini a z s) = Inr v" and "el \<in> set (store s a)"
    and "fst el = zini \<or> fst el = z"
  shows "el \<in> set (traversal zini z (store s a)) \<and>
         v = compose zini qini z (traversal zini z (store s a))"
proof -
  have "el \<in> set (traversal zini z (store s a))"
    using assms(2,3) by (auto simp: traversal_filter)
  moreover have "v = compose zini qini z (traversal zini z (store s a))"
    using assms(1) by (simp add: qpropagate_value split: if_splits)
  ultimately show ?thesis by simp
qed

theorem qpropagate_boundary_inclusive_witness:
  "fst (qpropagate 0 \<i> 0 3 \<lparr>store = (\<lambda>_. [])(0 := [(0, ArrayAt 5 1 0 (- 1) 1), (3, ArrayAt 6 1 0 0 2)]), fresh = 1\<rparr>)
     = Inr (compose 0 \<i> 3 (traversal 0 3 [(0, ArrayAt 5 1 0 (- 1) 1), (3, ArrayAt 6 1 0 0 2)])) \<and>
   fst (qpropagate 3 \<i> 0 0 \<lparr>store = (\<lambda>_. [])(0 := [(0, ArrayAt 5 1 0 (- 1) 1), (3, ArrayAt 6 1 0 0 2)]), fresh = 1\<rparr>)
     = Inr (compose 3 \<i> 0 (traversal 3 0 [(0, ArrayAt 5 1 0 (- 1) 1), (3, ArrayAt 6 1 0 0 2)])) \<and>
   (0, ArrayAt 5 1 0 (- 1) 1) \<in> set (traversal 0 3 [(0, ArrayAt 5 1 0 (- 1) 1), (3, ArrayAt 6 1 0 0 2)]) \<and>
   (3, ArrayAt 6 1 0 0 2) \<in> set (traversal 0 3 [(0, ArrayAt 5 1 0 (- 1) 1), (3, ArrayAt 6 1 0 0 2)]) \<and>
   (0, ArrayAt 5 1 0 (- 1) 1) \<in> set (traversal 3 0 [(0, ArrayAt 5 1 0 (- 1) 1), (3, ArrayAt 6 1 0 0 2)]) \<and>
   (3, ArrayAt 6 1 0 0 2) \<in> set (traversal 3 0 [(0, ArrayAt 5 1 0 (- 1) 1), (3, ArrayAt 6 1 0 0 2)])"
proof -
  let ?xs = "[(0::real, ArrayAt 5 1 0 (- 1) 1), (3, ArrayAt 6 1 0 0 2)]"
  let ?s = "\<lparr>store = (\<lambda>_. [])(0 := ?xs), fresh = 1\<rparr>"
  have st: "store ?s 0 = ?xs" by simp
  have na: "\<not> ambiguous (store ?s 0)" by (simp add: ambiguous_def raising_def)
  have fw: "fst (qpropagate 0 \<i> 0 3 ?s) = Inr (compose 0 \<i> 3 (traversal 0 3 (store ?s 0)))"
    using na qpropagate_value [of 0 \<i> 0 3 ?s] by presburger
  have bw: "fst (qpropagate 3 \<i> 0 0 ?s) = Inr (compose 3 \<i> 0 (traversal 3 0 (store ?s 0)))"
    using na qpropagate_value [of 3 \<i> 0 0 ?s] by presburger
  have m0: "(0, ArrayAt 5 1 0 (- 1) 1) \<in> set (store ?s 0)" by simp
  have m3: "(3, ArrayAt 6 1 0 0 2) \<in> set (store ?s 0)" by simp
  have f0: "fst (0::real, ArrayAt 5 1 0 (- 1) 1) = 0 \<or> fst (0::real, ArrayAt 5 1 0 (- 1) 1) = 3" by simp
  have f3: "fst (3::real, ArrayAt 6 1 0 0 2) = 0 \<or> fst (3::real, ArrayAt 6 1 0 0 2) = 3" by simp
  have f0': "fst (0::real, ArrayAt 5 1 0 (- 1) 1) = 3 \<or> fst (0::real, ArrayAt 5 1 0 (- 1) 1) = 0" by simp
  have f3': "fst (3::real, ArrayAt 6 1 0 0 2) = 3 \<or> fst (3::real, ArrayAt 6 1 0 0 2) = 0" by simp
  show ?thesis
    using fw bw qpropagate_boundary_inclusive [OF fw m0 f0]
      qpropagate_boundary_inclusive [OF fw m3 f3]
      qpropagate_boundary_inclusive [OF bw m0 f0']
      qpropagate_boundary_inclusive [OF bw m3 f3']
    unfolding st by blast
qed

subsection \<open>The order of the traversal\<close>

lemma length_remove1_less: "x \<in> set xs \<Longrightarrow> length (remove1 x xs) < length xs"
  by (induction xs) auto

lemma sort_key_hd_least:
  assumes "ys = sort_key el_key cands" "cands \<noteq> []" "e \<in> set cands"
  shows "fst (hd ys) \<le> fst e"
proof -
  have ne: "ys \<noteq> []" using assms by (metis length_sort length_0_conv)
  then obtain y ys' where ys: "ys = y # ys'" by (cases ys) auto
  have "sorted (map el_key ys)" by (simp add: assms(1))
  moreover have "e \<in> set ys" using assms by simp
  ultimately have "el_key y \<le> el_key e" by (auto simp: ys)
  then show ?thesis by (simp add: ys el_key_mono)
qed

lemma sort_key_remove_hd:
  assumes "inj_on el_key (set cands)" "cands \<noteq> []"
  shows "sort_key el_key (remove1 (hd (sort_key el_key cands)) cands) = tl (sort_key el_key cands)"
proof -
  let ?ys = "sort_key el_key cands"
  have ne: "?ys \<noteq> []" using assms by (metis length_sort length_0_conv)
  then obtain y ys' where ys: "?ys = y # ys'" by (cases ?ys) auto
  have m: "mset cands = add_mset y (mset ys')" using ys by (metis mset_sort mset.simps(2))
  have "mset (remove1 y cands) = mset ys'" by (simp add: m)
  moreover have "inj_on el_key (set (remove1 y cands))"
    using assms(1) by (rule inj_on_subset) (rule set_remove1_subset)
  moreover have "sorted (map el_key ys')"
    using sorted_sort_key [of el_key cands] by (simp add: ys)
  ultimately have "sort_key el_key (remove1 y cands) = ys'" by (rule sort_key_inj_key_eq)
  then show ?thesis by (simp add: ys)
qed

lemma select_walk_lowest:
  "inj_on el_key (set remaining) \<Longrightarrow>
   select_walk False z st remaining =
     foldl fwd_step st (sort_key el_key (filter (\<lambda>e. fst st \<le> fst e \<and> fst e \<le> z) remaining))"
proof (induction "length remaining" arbitrary: remaining st rule: less_induct)
  case less
  obtain zt qt where st: "st = (zt, qt)" by (cases st)
  define cands where "cands = filter (\<lambda>e. zt \<le> fst e \<and> fst e \<le> z) remaining"
  show ?case
  proof (cases "cands = []")
    case True
    then show ?thesis by (simp add: st select_walk.simps [of False z zt qt remaining] cands_def)
  next
    case False
    define ys where "ys = sort_key el_key cands"
    define el where "el = hd ys"
    have ne: "ys \<noteq> []" using False unfolding ys_def by (metis length_sort length_0_conv)
    have ys: "ys = el # tl ys" using ne by (simp add: el_def)
    have el_cands: "el \<in> set cands" using ne hd_in_set [OF ne] by (simp add: el_def ys_def)
    then have el_rem: "el \<in> set remaining" and el_in: "zt \<le> fst el" "fst el \<le> z"
      by (simp_all add: cands_def)
    have least: "fst el \<le> fst e" if "e \<in> set cands" for e
      unfolding el_def using sort_key_hd_least [OF ys_def False that] .
    have same: "filter (\<lambda>e. fst el \<le> fst e \<and> fst e \<le> z) remaining = cands"
      unfolding cands_def
    proof (rule filter_cong [OF refl])
      fix e assume "e \<in> set remaining"
      then show "(fst el \<le> fst e \<and> fst e \<le> z) = (zt \<le> fst e \<and> fst e \<le> z)"
        using least [of e] el_in by (auto simp: cands_def)
    qed
    have inj_c: "inj_on el_key (set cands)"
      using less.prems by (rule inj_on_subset) (auto simp: cands_def)
    have rest: "sort_key el_key (filter (\<lambda>e. fst el \<le> fst e \<and> fst e \<le> z) (remove1 el remaining)) = tl ys"
      using sort_key_remove_hd [OF inj_c False]
      unfolding filter_remove1 same by (simp add: el_def ys_def)
    have shorter: "length (remove1 el remaining) < length remaining"
      using el_rem by (rule length_remove1_less)
    have inj': "inj_on el_key (set (remove1 el remaining))"
      using less.prems by (rule inj_on_subset) (rule set_remove1_subset)
    have "select_walk False z st remaining = select_walk False z (fwd_step st el) (remove1 el remaining)"
      using False
      by (simp add: st select_walk.simps [of False z zt qt remaining] cands_def [symmetric]
            ys_def [symmetric] el_def [symmetric] Let_def)
    also have "\<dots> = foldl fwd_step (fwd_step st el) (tl ys)"
      using less.hyps [OF shorter inj', of "fwd_step st el"] by (simp add: st rest)
    also have "\<dots> = foldl fwd_step st ys" by (subst (2) ys) simp
    finally show ?thesis by (simp add: st cands_def ys_def)
  qed
qed

text \<open>
  An example: a thin lens of focal length 1 at position 1 and a flat interface from index
  2 to index 1 at position 2, given in the order \<open>[interface, lens]\<close>, for a beam with
  \<open>q = \<i>\<close> at 0 that is propagated to 3.
\<close>

lemma lens_from_0: "fwd_step (0, Some \<i>) (1, ArrayAt 5 1 0 (- 1) 1) = (1, Some (Complex (- 1) 1))"
  by (simp add: complex_eq_iff Re_divide Im_divide power2_eq_square)

lemma interface_from_1:
  "fwd_step (1, Some (Complex (- 1) 1)) (2, ArrayAt 6 1 0 0 2) = (2, Some (Complex 0 (1 / 2)))"
  by (simp add: complex_eq_iff Re_divide Im_divide power2_eq_square)

lemma interface_from_0:
  "fwd_step (0, Some \<i>) (2, ArrayAt 6 1 0 0 2) = (2, Some (Complex 1 (1 / 2)))"
  by (simp add: complex_eq_iff Re_divide Im_divide power2_eq_square)

lemma lens_from_2:
  "fwd_step (2, Some (Complex 1 (1 / 2))) (1, ArrayAt 5 1 0 (- 1) 1) = (1, Some (Complex (- 1 / 5) (2 / 5)))"
  by (simp add: complex_eq_iff Re_divide Im_divide power2_eq_square)

lemma example_sorts: "\<not> ambiguous [(2, ArrayAt 6 1 0 0 2), (1, ArrayAt 5 1 0 (- 1) 1)]"
  by (simp add: ambiguous_def raising_def)

lemma example_call:
  "fst (qpropagate 0 \<i> 0 3
      \<lparr>store = (\<lambda>_. [])(0 := [(2, ArrayAt 6 1 0 0 2), (1, ArrayAt 5 1 0 (- 1) 1)]), fresh = 1\<rparr>)
    = Inr (Some (Complex 1 (1 / 2)))"
  by (simp add: qpropagate_value example_sorts traversal_def compose_def lens_from_0
        interface_from_1 complex_eq_iff del: fwd_step.simps)

lemma example_highest_first:
  "highest_first 0 \<i> [(2, ArrayAt 6 1 0 0 2), (1, ArrayAt 5 1 0 (- 1) 1)] 3 = Some (Complex 2 (1 / 2))"
proof -
  let ?A = "(1::real, ArrayAt 5 1 0 (- 1) 1)" and ?B = "(2::real, ArrayAt 6 1 0 0 2)"
  have 1: "select_walk True 3 (0, Some \<i>) [?B, ?A] = select_walk True 3 (fwd_step (0, Some \<i>) ?B) [?A]"
    by (subst select_walk.simps) (simp del: fwd_step.simps, simp)
  have 2: "select_walk True 3 (2, Some (Complex 1 (1 / 2))) [?A] = (2, Some (Complex 1 (1 / 2)))"
    by (subst select_walk.simps) simp
  show ?thesis
    by (simp add: highest_first_def 1 interface_from_0 2 complex_eq_iff del: fwd_step.simps)
qed

lemma example_descending:
  "compose 0 \<i> 3 (rev (filter (\<lambda>e. 0 \<le> fst e \<and> fst e \<le> 3)
      (sort_key el_key [(2, ArrayAt 6 1 0 0 2), (1, ArrayAt 5 1 0 (- 1) 1)])))
    = Some (Complex (9 / 5) (2 / 5))"
  by (simp add: compose_def interface_from_0 lens_from_2 complex_eq_iff del: fwd_step.simps)

text \<open>
  A second example: the list holds the lens object twice, at position 1. The sort
  compares one object with itself and does not raise; the lens is applied twice.
\<close>

lemma lens_again:
  "fwd_step (1, Some (Complex (- 1) 1)) (1, ArrayAt 5 1 0 (- 1) 1) = (1, Some (Complex (- 3 / 5) (1 / 5)))"
  by (simp add: complex_eq_iff Re_divide Im_divide power2_eq_square)

lemma shared_sorts: "\<not> ambiguous [(1, ArrayAt 5 1 0 (- 1) 1), (1, ArrayAt 5 1 0 (- 1) 1)]"
  by (simp add: ambiguous_def raising_def)

lemma shared_call:
  "fst (qpropagate 0 \<i> 0 3
      \<lparr>store = (\<lambda>_. [])(0 := [(1, ArrayAt 5 1 0 (- 1) 1), (1, ArrayAt 5 1 0 (- 1) 1)]), fresh = 1\<rparr>)
    = Inr (Some (Complex (7 / 5) (1 / 5)))"
  by (simp add: qpropagate_value shared_sorts traversal_def compose_def lens_from_0
        lens_again complex_eq_iff del: fwd_step.simps)

text \<open>
  C2, as stated: for \<open>z >= zini\<close> the result is the highest-position-first composition.
  It is not. In the example the code applies the lens and then the interface and returns
  \<open>1 + \<i>/2\<close>. Taking the highest position in \<open>[walked location, z]\<close> first applies the
  interface, after which the lens is behind the walked location: \<open>2 + \<i>/2\<close>. Applying
  the elements of \<open>[zini, z]\<close> in descending order without that test gives
  \<open>9/5 + 2\<i>/5\<close>.
\<close>

theorem highest_first_counterexample:
  "(0::real) \<le> 3 \<and>
   fst (qpropagate 0 \<i> 0 3
      \<lparr>store = (\<lambda>_. [])(0 := [(2, ArrayAt 6 1 0 0 2), (1, ArrayAt 5 1 0 (- 1) 1)]), fresh = 1\<rparr>)
     = Inr (Some (Complex 1 (1 / 2))) \<and>
   highest_first 0 \<i> [(2, ArrayAt 6 1 0 0 2), (1, ArrayAt 5 1 0 (- 1) 1)] 3 = Some (Complex 2 (1 / 2)) \<and>
   fst (qpropagate 0 \<i> 0 3
      \<lparr>store = (\<lambda>_. [])(0 := [(2, ArrayAt 6 1 0 0 2), (1, ArrayAt 5 1 0 (- 1) 1)]), fresh = 1\<rparr>)
     \<noteq> Inr (highest_first 0 \<i> [(2, ArrayAt 6 1 0 0 2), (1, ArrayAt 5 1 0 (- 1) 1)] 3) \<and>
   fst (qpropagate 0 \<i> 0 3
      \<lparr>store = (\<lambda>_. [])(0 := [(2, ArrayAt 6 1 0 0 2), (1, ArrayAt 5 1 0 (- 1) 1)]), fresh = 1\<rparr>)
     \<noteq> Inr (compose 0 \<i> 3 (rev (filter (\<lambda>e. 0 \<le> fst e \<and> fst e \<le> 3)
          (sort_key el_key [(2, ArrayAt 6 1 0 0 2), (1, ArrayAt 5 1 0 (- 1) 1)]))))"
  using example_call example_highest_first example_descending by simp

text \<open>
  C2, amended: for \<open>z >= zini\<close>, in a call that returns a value (its sort does not
  raise), the elements with positions in \<open>[zini, z]\<close> are processed in ascending order of
  position: the returned value is the lowest-position-first composition followed by the
  final gap to \<open>z\<close>, which is the composition over the sorted list restricted to
  \<open>[zini, z]\<close>.
\<close>

theorem qpropagate_forward_ascending:
  assumes "zini \<le> z" and "fst (qpropagate zini qini a z s) = Inr v"
  shows "v = lowest_first zini qini (store s a) z \<and>
         v = compose zini qini z
           (filter (\<lambda>e. zini \<le> fst e \<and> fst e \<le> z) (sort_key el_key (store s a)))"
proof -
  have na: "\<not> ambiguous (store s a)"
    using assms(2) by (simp add: qpropagate_value split: if_splits)
  have v: "v = compose zini qini z (traversal zini z (store s a))"
    using assms(2) by (simp add: qpropagate_value split: if_splits)
  have "select_walk False z (zini, Some qini) (store s a) =
      foldl fwd_step (zini, Some qini) (traversal zini z (store s a))"
    using assms(1) select_walk_lowest [OF el_key_inj [OF na], of z "(zini, Some qini)"]
    by (simp add: traversal_filter filter_sort)
  then have "v = lowest_first zini qini (store s a) z"
    using assms(1) by (simp add: v lowest_first_def compose_def)
  moreover have "v = compose zini qini z
      (filter (\<lambda>e. zini \<le> fst e \<and> fst e \<le> z) (sort_key el_key (store s a)))"
    using assms(1) by (simp add: v traversal_filter)
  ultimately show ?thesis by simp
qed

theorem qpropagate_forward_ascending_witness:
  "(0::real) \<le> 3 \<and>
   fst (qpropagate 0 \<i> 0 3
      \<lparr>store = (\<lambda>_. [])(0 := [(2, ArrayAt 6 1 0 0 2), (1, ArrayAt 5 1 0 (- 1) 1)]), fresh = 1\<rparr>)
     = Inr (Some (Complex 1 (1 / 2))) \<and>
   lowest_first 0 \<i> [(2, ArrayAt 6 1 0 0 2), (1, ArrayAt 5 1 0 (- 1) 1)] 3 = Some (Complex 1 (1 / 2)) \<and>
   fst (qpropagate 0 \<i> 0 3
      \<lparr>store = (\<lambda>_. [])(0 := [(1, ArrayAt 5 1 0 (- 1) 1), (1, ArrayAt 5 1 0 (- 1) 1)]), fresh = 1\<rparr>)
     = Inr (Some (Complex (7 / 5) (1 / 5))) \<and>
   lowest_first 0 \<i> [(1, ArrayAt 5 1 0 (- 1) 1), (1, ArrayAt 5 1 0 (- 1) 1)] 3 = Some (Complex (7 / 5) (1 / 5))"
proof -
  let ?xs = "[(2::real, ArrayAt 6 1 0 0 2), (1, ArrayAt 5 1 0 (- 1) 1)]"
  let ?ys = "[(1::real, ArrayAt 5 1 0 (- 1) 1), (1, ArrayAt 5 1 0 (- 1) 1)]"
  let ?s = "\<lparr>store = (\<lambda>_. [])(0 := ?xs), fresh = 1\<rparr>"
  let ?t = "\<lparr>store = (\<lambda>_. [])(0 := ?ys), fresh = 1\<rparr>"
  have le: "(0::real) \<le> 3" by simp
  have 1: "Some (Complex 1 (1 / 2)) = lowest_first 0 \<i> (store ?s 0) 3"
    using qpropagate_forward_ascending [OF le example_call] by blast
  have 2: "Some (Complex (7 / 5) (1 / 5)) = lowest_first 0 \<i> (store ?t 0) 3"
    using qpropagate_forward_ascending [OF le shared_call] by blast
  have st: "store ?s 0 = ?xs" "store ?t 0 = ?ys" by simp_all
  show ?thesis using le example_call shared_call 1 [symmetric] 2 [symmetric] unfolding st by blast
qed

end
